theory Spec2Isabelle
  imports Complex_Main
begin

section \<open>Python string primitives used by the extractor\<close>

text \<open>
  Strings are lists of 8-bit characters, read as the code points below 256.  The functions
  below are the Python string methods the extractor calls, on that alphabet:
  \<open>str.strip()\<close> removes the white space of that range and \<open>str.lower()\<close> lowers
  its upper-case letters.
\<close>

definition is_space :: "char \<Rightarrow> bool" where
  "is_space c \<longleftrightarrow> c \<in> set [CHR 0x09, CHR 0x0A, CHR 0x0B, CHR 0x0C, CHR 0x0D,
      CHR 0x1C, CHR 0x1D, CHR 0x1E, CHR 0x1F, CHR 0x20, CHR 0x85, CHR 0xA0]"

text \<open>\<open>s.strip(chars)\<close>: drop the characters satisfying \<open>P\<close> at both ends.\<close>

definition strip_by :: "(char \<Rightarrow> bool) \<Rightarrow> string \<Rightarrow> string" where
  "strip_by P s = rev (dropWhile P (rev (dropWhile P s)))"

definition strip :: "string \<Rightarrow> string" where
  "strip s = strip_by is_space s"

definition upper_letters :: string where
  "upper_letters = ''ABCDEFGHIJKLMNOPQRSTUVWXYZ''"

definition lower_letters :: string where
  "lower_letters = ''abcdefghijklmnopqrstuvwxyz''"

definition digit_chars :: string where
  "digit_chars = ''0123456789''"

text \<open>The upper-case letters beyond ASCII (U+00C0 to U+00DE without the multiplication
  sign U+00D7) and their lower-case forms, 32 code points further.\<close>

definition upper_latin1 :: string where
  "upper_latin1 = [CHR 0xC0, CHR 0xC1, CHR 0xC2, CHR 0xC3, CHR 0xC4, CHR 0xC5, CHR 0xC6,
     CHR 0xC7, CHR 0xC8, CHR 0xC9, CHR 0xCA, CHR 0xCB, CHR 0xCC, CHR 0xCD, CHR 0xCE, CHR 0xCF,
     CHR 0xD0, CHR 0xD1, CHR 0xD2, CHR 0xD3, CHR 0xD4, CHR 0xD5, CHR 0xD6,
     CHR 0xD8, CHR 0xD9, CHR 0xDA, CHR 0xDB, CHR 0xDC, CHR 0xDD, CHR 0xDE]"

definition lower_latin1 :: string where
  "lower_latin1 = [CHR 0xE0, CHR 0xE1, CHR 0xE2, CHR 0xE3, CHR 0xE4, CHR 0xE5, CHR 0xE6,
     CHR 0xE7, CHR 0xE8, CHR 0xE9, CHR 0xEA, CHR 0xEB, CHR 0xEC, CHR 0xED, CHR 0xEE, CHR 0xEF,
     CHR 0xF0, CHR 0xF1, CHR 0xF2, CHR 0xF3, CHR 0xF4, CHR 0xF5, CHR 0xF6,
     CHR 0xF8, CHR 0xF9, CHR 0xFA, CHR 0xFB, CHR 0xFC, CHR 0xFD, CHR 0xFE]"

definition lower_char :: "char \<Rightarrow> char" where
  "lower_char c =
     (case map_of (zip (upper_letters @ upper_latin1) (lower_letters @ lower_latin1)) c of
        Some d \<Rightarrow> d | None \<Rightarrow> c)"

definition lower :: "string \<Rightarrow> string" where
  "lower s = map lower_char s"

text \<open>\<open>s.split(sep)\<close> for a one-character separator: always at least one piece.\<close>

fun split_on :: "char \<Rightarrow> string \<Rightarrow> string list" where
  "split_on c [] = [[]]"
| "split_on c (x # xs) =
     (if x = c then [] # split_on c xs
      else (case split_on c xs of
              p # ps \<Rightarrow> (x # p) # ps
            | [] \<Rightarrow> [[x]]))"

text \<open>\<open>s.split(sep, 1)\<close> where \<open>sep\<close> occurs in \<open>s\<close>: the text before the first
  separator and the text after it.\<close>

definition split_once :: "char \<Rightarrow> string \<Rightarrow> string \<times> string" where
  "split_once c s = (takeWhile (\<lambda>x. x \<noteq> c) s, drop 1 (dropWhile (\<lambda>x. x \<noteq> c) s))"

text \<open>\<open>sep.join(pieces)\<close>.\<close>

fun join :: "string \<Rightarrow> string list \<Rightarrow> string" where
  "join sep [] = []"
| "join sep [p] = p"
| "join sep (p # q # ps) = p @ sep @ join sep (q # ps)"

text \<open>\<open>'->' in s\<close> and \<open>s.replace('->', '')\<close>.\<close>

fun has_arrow :: "string \<Rightarrow> bool" where
  "has_arrow (a # b # xs) = ((a = CHR ''-'' \<and> b = CHR ''>'') \<or> has_arrow (b # xs))"
| "has_arrow xs = False"

fun remove_arrow :: "string \<Rightarrow> string" where
  "remove_arrow (a # b # xs) =
     (if a = CHR ''-'' \<and> b = CHR ''>'' then remove_arrow xs else a # remove_arrow (b # xs))"
| "remove_arrow xs = xs"

section \<open>Column names: \<open>clean_column_name\<close>\<close>

text \<open>
  \<^verbatim>\<open>cleaned = re.sub(r'[^a-zA-Z0-9_]', '_', name)\<close>,
  \<^verbatim>\<open>cleaned = re.sub(r'_+', '_', cleaned)\<close>,
  \<^verbatim>\<open>cleaned = cleaned.strip('_').lower()\<close>.
\<close>

definition is_word_char :: "char \<Rightarrow> bool" where
  "is_word_char c \<longleftrightarrow> c \<in> set (lower_letters @ upper_letters @ digit_chars @ ''_'')"

definition sub_non_word :: "string \<Rightarrow> string" where
  "sub_non_word s = map (\<lambda>c. if is_word_char c then c else CHR ''_'') s"

fun collapse_underscores :: "string \<Rightarrow> string" where
  "collapse_underscores (a # b # xs) =
     (if a = CHR ''_'' \<and> b = CHR ''_'' then collapse_underscores (b # xs)
      else a # collapse_underscores (b # xs))"
| "collapse_underscores xs = xs"

definition clean_column_name :: "string \<Rightarrow> string" where
  "clean_column_name name =
     lower (strip_by (\<lambda>c. c = CHR ''_'') (collapse_underscores (sub_non_word name)))"

section \<open>The long export's parser: \<open>parse_setlist_for_ml\<close>\<close>

record song_row =
  set_name :: string
  song_position :: int
  song_name :: string
  has_segue :: bool
  segue_info :: string

text \<open>One iteration of the inner loop: a piece between commas, with its 1-based position.
  The result is \<open>None\<close> when the song name is empty and nothing is appended.\<close>

definition parse_song :: "string \<Rightarrow> nat \<times> string \<Rightarrow> song_row option" where
  "parse_song sname pr =
     (let position = fst pr;
          raw_song = strip (snd pr);
          r = (if CHR ''>'' \<in> set raw_song
                 then (True, ''>'', strip (filter (\<lambda>c. c \<noteq> CHR ''>'') raw_song))
               else if has_arrow raw_song
                 then (True, ''->'', strip (remove_arrow raw_song))
               else (False, '''', raw_song))
      in (case r of (seg, info, name) \<Rightarrow>
            if name \<noteq> []
              then Some \<lparr>set_name = sname, song_position = int position, song_name = name,
                         has_segue = seg, segue_info = info\<rparr>
            else None))"

text \<open>One iteration of the outer loop: a piece between bars.\<close>

definition parse_set :: "string \<Rightarrow> song_row list" where
  "parse_set piece =
     (let set_info = strip piece
      in if CHR '':'' \<in> set set_info
           then (case split_once (CHR '':'') set_info of
                   (sname, song_list) \<Rightarrow>
                     List.map_filter (parse_song (strip sname))
                       (enumerate 1 (split_on (CHR '','') song_list)))
         else [])"

definition parse_setlist_for_ml :: "string \<Rightarrow> song_row list" where
  "parse_setlist_for_ml setlist_string =
     (if setlist_string = [] then []
      else concat (map parse_set (split_on (CHR ''|'') setlist_string)))"

text \<open>No two adjacent underscores: what \<open>collapse_underscores\<close> establishes.\<close>

definition no_double :: "string \<Rightarrow> bool" where
  "no_double s = successively (\<lambda>a b. \<not> (a = CHR ''_'' \<and> b = CHR ''_'')) s"

section \<open>The remote API\<close>

text \<open>
  A JSON object of a \<open>data\<close> list, restricted to the keys the extractor reads.  A field
  is \<open>None\<close> when the key is absent, so that \<open>obj.get(key, default)\<close> is the field or
  the default.  The catalog endpoint fills the show keys, the setlist endpoint the keys
  \<open>set\<close>, \<open>song\<close>, \<open>position\<close> and \<open>segue\<close>; string keys hold strings and
  \<open>position\<close> holds an integer.
\<close>

record item =
  j_showid :: "string option"
  j_showdate :: "string option"
  j_artist_name :: "string option"
  j_venue :: "string option"
  j_city :: "string option"
  j_state :: "string option"
  j_country :: "string option"
  j_tour_name :: "string option"
  j_rating :: "string option"
  j_reviews :: "string option"
  j_venueid :: "string option"
  j_permalink :: "string option"
  j_set :: "string option"
  j_song :: "string option"
  j_position :: "int option"
  j_segue :: "string option"

definition empty_item :: item where
  "empty_item = \<lparr>j_showid = None, j_showdate = None, j_artist_name = None, j_venue = None,
     j_city = None, j_state = None, j_country = None, j_tour_name = None, j_rating = None,
     j_reviews = None, j_venueid = None, j_permalink = None, j_set = None, j_song = None,
     j_position = None, j_segue = None\<rparr>"

text \<open>\<open>obj.get(key, default)\<close>.\<close>

definition get_or :: "'a option \<Rightarrow> 'a \<Rightarrow> 'a" where
  "get_or field dflt = (case field of Some v \<Rightarrow> v | None \<Rightarrow> dflt)"

text \<open>The value of the envelope's \<open>error\<close> key, with Python's truth value and its
  comparison \<open>== False\<close> (which \<open>False\<close> and \<open>0\<close> satisfy).\<close>

datatype jscalar = JNull | JBool bool | JInt int | JStr string

fun truthy :: "jscalar \<Rightarrow> bool" where
  "truthy JNull = False"
| "truthy (JBool b) = b"
| "truthy (JInt n) = (n \<noteq> 0)"
| "truthy (JStr s) = (s \<noteq> [])"

fun eq_False :: "jscalar \<Rightarrow> bool" where
  "eq_False (JBool b) = (\<not> b)"
| "eq_False (JInt n) = (n = 0)"
| "eq_False v = False"

record envelope =
  e_error :: "jscalar option"
  e_data :: "item list option"

datatype body = Not_json | Json envelope

text \<open>What one \<open>requests.get\<close> does: it raises a \<open>RequestException\<close> (time-out,
  connection error), or it returns a response with a status code and a body.\<close>

datatype outcome = Transport_error | Response nat body

datatype endpoint = Shows_by_year int | Setlist_by_date string | Other_endpoint string

text \<open>The observable effects: each GET and each \<open>time.sleep\<close>, tagged with the place
  of the source that sleeps.\<close>

datatype event =
    Request endpoint
  | Rate_limit_wait int
  | Retry_wait int
  | Request_delay rat
  | Batch_pause rat

text \<open>
  The world outside the process: the server's answer to the n-th GET of the run, the number
  of GETs issued so far, the effects so far (oldest first), the calendar year, and how the
  installed \<open>requests\<close> library reports a body that is not JSON: with an exception that
  is also a \<open>RequestException\<close> (as its releases from 2.27 on do), which the first
  handler of \<open>make_request\<close> catches, or with a plain \<open>json.JSONDecodeError\<close>, which
  the second handler catches.
\<close>

record world =
  responses :: "nat \<Rightarrow> outcome"
  requests_made :: nat
  trace :: "event list"
  current_year :: int
  json_error_is_request_error :: bool

definition emit :: "event \<Rightarrow> world \<Rightarrow> world" where
  "emit e w = w\<lparr>trace := trace w @ [e]\<rparr>"

definition http_get :: "endpoint \<Rightarrow> world \<Rightarrow> outcome \<times> world" where
  "http_get ep w =
     (responses w (requests_made w),
      w\<lparr>requests_made := Suc (requests_made w), trace := trace w @ [Request ep]\<rparr>)"

section \<open>The extractor object\<close>

text \<open>\<open>__init__\<close> takes the API key; the pacing settings are constants it assigns.\<close>

record extractor =
  api_key :: string
  all_songs :: "string set"

definition batch_size :: nat where "batch_size = 50"
definition request_delay :: rat where "request_delay = 1 / 2"
definition batch_delay :: rat where "batch_delay = 2"

section \<open>The HTTP client wrapper: \<open>make_request\<close>\<close>

text \<open>\<open>response.raise_for_status()\<close> raises for the status codes 400 to 599.\<close>

definition raises_for_status :: "nat \<Rightarrow> bool" where
  "raises_for_status status \<longleftrightarrow> 400 \<le> status \<and> status < 600"

text \<open>
  The loop \<open>for attempt in range(retry_count)\<close>, from \<open>attempt\<close> on.  A status 429
  sleeps and continues; a \<open>RequestException\<close> (from the GET or from
  \<open>raise_for_status\<close>) sleeps and continues unless this is the last attempt; otherwise
  the request delay is slept, then the body is decoded and its \<open>error\<close> key tested.
  A body that is not JSON raises in \<open>response.json()\<close>, after that sleep, and goes to
  the handler that catches the exception the library raises.  Falling out of the loop
  returns \<open>None\<close>.
\<close>

function attempts :: "endpoint \<Rightarrow> int \<Rightarrow> nat \<Rightarrow> world \<Rightarrow> envelope option \<times> world" where
  "attempts ep retry_count attempt w =
     (if int attempt < retry_count then
        (case http_get ep w of
           (Transport_error, w1) \<Rightarrow>
             if int attempt < retry_count - 1
               then attempts ep retry_count (Suc attempt)
                      (emit (Retry_wait (2 * (int attempt + 1))) w1)
             else (None, w1)
         | (Response status b, w1) \<Rightarrow>
             if status = 429
               then attempts ep retry_count (Suc attempt)
                      (emit (Rate_limit_wait (5 * (int attempt + 1))) w1)
             else if raises_for_status status then
               (if int attempt < retry_count - 1
                  then attempts ep retry_count (Suc attempt)
                         (emit (Retry_wait (2 * (int attempt + 1))) w1)
                else (None, w1))
             else
               (let w2 = emit (Request_delay request_delay) w1
                in case b of
                     Not_json \<Rightarrow>
                       if json_error_is_request_error w then
                         (if int attempt < retry_count - 1
                            then attempts ep retry_count (Suc attempt)
                                   (emit (Retry_wait (2 * (int attempt + 1))) w2)
                          else (None, w2))
                       else (None, w2)
                   | Json data \<Rightarrow>
                       if truthy (get_or (e_error data) JNull) then (None, w2)
                       else (Some data, w2)))
      else (None, w))"
  by pat_completeness auto
termination
  by (relation "measure (\<lambda>(ep, retry_count, attempt, w). nat retry_count - attempt)") auto

declare attempts.simps [simp del]

definition make_request :: "extractor \<Rightarrow> endpoint \<Rightarrow> int \<Rightarrow> world \<Rightarrow> envelope option \<times> world" where
  "make_request self ep retry_count w =
     (if api_key self \<noteq> [] then attempts ep retry_count 0 w else (None, w))"

text \<open>The effects of attempts \<open>a\<close> up to \<open>b\<close> when each is answered by status 429.\<close>

definition rate_limited_run :: "endpoint \<Rightarrow> nat \<Rightarrow> nat \<Rightarrow> event list" where
  "rate_limited_run ep a b =
     concat (map (\<lambda>k. [Request ep, Rate_limit_wait (5 * (int k + 1))]) [a..<b])"

text \<open>A response that gets past both status checks of \<open>make_request\<close>.\<close>

definition passes_status :: "outcome \<Rightarrow> bool" where
  "passes_status out =
     (case out of Transport_error \<Rightarrow> False
      | Response status b \<Rightarrow> status \<noteq> 429 \<and> \<not> raises_for_status status)"

text \<open>The effects added between two states of the world.\<close>

definition new_events :: "world \<Rightarrow> world \<Rightarrow> event list" where
  "new_events w w' = drop (length (trace w)) (trace w')"

text \<open>A fresh run against a given server, and the extractor \<open>main\<close> constructs.\<close>

definition fresh_world :: "(nat \<Rightarrow> outcome) \<Rightarrow> world" where
  "fresh_world srv = \<lparr>responses = srv, requests_made = 0, trace = [], current_year = 2024,
     json_error_is_request_error = True\<rparr>"

definition main_extractor :: extractor where
  "main_extractor = \<lparr>api_key = ''A59D71B642DA223E6F61'', all_songs = {}\<rparr>"

section \<open>The show catalog fetcher: \<open>get_all_shows\<close>\<close>

text \<open>\<open>show.get('artist_name', '').lower() == 'phish'\<close>.\<close>

definition is_phish :: "item \<Rightarrow> bool" where
  "is_phish show \<longleftrightarrow> lower (get_or (j_artist_name show) '''') = ''phish''"

text \<open>\<open>response.get('error') == False\<close>: an absent key gives \<open>None\<close>, which is not
  \<open>False\<close>.\<close>

definition error_is_False :: "envelope \<Rightarrow> bool" where
  "error_is_False r = (case e_error r of Some v \<Rightarrow> eq_False v | None \<Rightarrow> False)"

text \<open>The body of the inner loop, for one year.  The branches that only log leave the
  accumulated list as it is.\<close>

definition fetch_year :: "extractor \<Rightarrow> int \<Rightarrow> item list \<times> world \<Rightarrow> item list \<times> world" where
  "fetch_year self year st =
     (case st of (all_shows, w) \<Rightarrow>
        (case make_request self (Shows_by_year year) 3 w of
           (Some response, w') \<Rightarrow>
             (case e_data response of
                Some year_shows \<Rightarrow>
                  if error_is_False response \<and> year_shows \<noteq> []
                    then (all_shows @ filter is_phish year_shows, w')
                  else (all_shows, w')
              | None \<Rightarrow> (all_shows, w'))
         | (None, w') \<Rightarrow> (all_shows, w')))"

text \<open>The outer loop \<open>for year_start in range(start_year, end_year + 1, 5)\<close>, from
  \<open>year_start\<close> on, with the pause after each batch of years but the last.\<close>

function year_batches ::
  "extractor \<Rightarrow> int \<Rightarrow> int \<Rightarrow> item list \<times> world \<Rightarrow> item list \<times> world" where
  "year_batches self end_year year_start st =
     (if year_start \<le> end_year then
        (let year_end = min (year_start + 5 - 1) end_year
         in case fold (fetch_year self) [year_start..year_end] st of
              (all_shows, w) \<Rightarrow>
                year_batches self end_year (year_start + 5)
                  (all_shows,
                   if year_end < end_year then emit (Batch_pause batch_delay) w else w))
      else st)"
  by pat_completeness auto
termination
  by (relation "measure (\<lambda>(self, end_year, year_start, st). nat (end_year + 1 - year_start))")
     auto

declare year_batches.simps [simp del]

definition get_all_shows ::
  "extractor \<Rightarrow> int option \<Rightarrow> int option \<Rightarrow> world \<Rightarrow> item list \<times> world" where
  "get_all_shows self start_year end_year w =
     year_batches self (get_or end_year (current_year w)) (get_or start_year 1983) ([], w)"

text \<open>A catalog answer for one year: a Phish show, a show of another artist, and a show
  whose artist is written in capitals.\<close>

definition sample_catalog :: "item list" where
  "sample_catalog =
     [empty_item\<lparr>j_showdate := Some ''1997-11-17'', j_artist_name := Some ''Phish''\<rparr>,
      empty_item\<lparr>j_showdate := Some ''1997-11-18'', j_artist_name := Some ''Trey Anastasio''\<rparr>,
      empty_item\<lparr>j_showdate := Some ''1997-11-19'', j_artist_name := Some ''PHISH''\<rparr>]"

definition catalog_server :: "nat \<Rightarrow> outcome" where
  "catalog_server n =
     Response 200 (Json \<lparr>e_error = Some (JBool False), e_data = Some sample_catalog\<rparr>)"

section \<open>The setlist formatter and the feature extractor\<close>

text \<open>A dictionary of lists in insertion order, and
  \<^verbatim>\<open>if k not in d: d[k] = []\<close> followed by \<^verbatim>\<open>d[k].append(v)\<close>
  (for a \<open>defaultdict(list)\<close>, the append alone).\<close>

fun append_group :: "'k \<Rightarrow> 'v \<Rightarrow> ('k \<times> 'v list) list \<Rightarrow> ('k \<times> 'v list) list" where
  "append_group k v [] = [(k, [v])]"
| "append_group k v ((k', vs) # rest) =
     (if k = k' then (k', vs @ [v]) # rest else (k', vs) # append_group k v rest)"

text \<open>\<open>segue and segue.strip()\<close> as a truth value.\<close>

definition has_segue_marker :: "string \<Rightarrow> bool" where
  "has_segue_marker segue \<longleftrightarrow> segue \<noteq> [] \<and> strip segue \<noteq> []"

text \<open>\<open>format_setlist_from_show\<close>: the grouping loop, the rendering of one set (songs
  sorted by position, a stable sort), and the whole function.\<close>

definition format_step ::
  "item \<Rightarrow> (string \<times> (int \<times> string) list) list \<Rightarrow> (string \<times> (int \<times> string) list) list" where
  "format_step entry sets =
     (let sname = get_or (j_set entry) ''Unknown Set'';
          song = get_or (j_song entry) ''Unknown Song'';
          position = get_or (j_position entry) 999;
          segue = get_or (j_segue entry) '''';
          song' = (if has_segue_marker segue then song @ '' '' @ segue @ '' '' else song)
      in append_group sname (position, song') sets)"

definition format_set :: "string \<times> (int \<times> string) list \<Rightarrow> string" where
  "format_set g = fst g @ '': '' @ join '', '' (map snd (sort_key fst (snd g)))"

definition format_setlist_from_show :: "item list \<Rightarrow> string" where
  "format_setlist_from_show setlist_data =
     (if setlist_data = [] then ''''
      else join '' | '' (map format_set (fold format_step setlist_data [])))"

text \<open>The feature bag of one show.  \<open>set_info\<close> keeps its insertion order; the other
  dictionaries are read by key only.\<close>

record feature_bag =
  songs_played :: "string list"
  set_positions :: "string \<rightharpoonup> int"
  song_counts :: "string \<rightharpoonup> int"
  has_segues :: "string \<rightharpoonup> bool"
  set_info :: "(string \<times> string list) list"

definition empty_features :: feature_bag where
  "empty_features = \<lparr>songs_played = [], set_positions = Map.empty, song_counts = Map.empty,
     has_segues = Map.empty, set_info = []\<rparr>"

text \<open>\<open>extract_song_features_from_setlist\<close>: the loop body, which also adds the song to
  the extractor's \<open>all_songs\<close>, and the whole function.\<close>

definition feature_step :: "item \<Rightarrow> feature_bag \<times> extractor \<Rightarrow> feature_bag \<times> extractor" where
  "feature_step entry st =
     (case st of (bag, self) \<Rightarrow>
        (let song = strip (get_or (j_song entry) ''Unknown Song'');
             sname = get_or (j_set entry) ''Unknown Set'';
             position = get_or (j_position entry) 0;
             segue = get_or (j_segue entry) ''''
         in if song \<noteq> [] \<and> song \<noteq> ''Unknown Song''
              then (bag\<lparr>songs_played := songs_played bag @ [song],
                         song_counts := (song_counts bag)
                            (song \<mapsto> get_or (song_counts bag song) 0 + 1),
                         set_positions := (set_positions bag)(song \<mapsto> position),
                         has_segues := (has_segues bag)(song \<mapsto> has_segue_marker segue),
                         set_info := append_group sname song (set_info bag)\<rparr>,
                    self\<lparr>all_songs := insert song (all_songs self)\<rparr>)
            else (bag, self)))"

definition extract_song_features_from_setlist ::
  "extractor \<Rightarrow> item list \<Rightarrow> feature_bag \<times> extractor" where
  "extract_song_features_from_setlist self setlist_data =
     fold feature_step setlist_data (empty_features, self)"

section \<open>The enrichment orchestrator: \<open>extract_all_data\<close>\<close>

record base_row =
  show_id :: string
  date :: string
  artist_name :: string
  venue :: string
  city :: string
  state :: string
  country :: string
  tour_name :: string
  rating :: string
  reviews :: string
  venue_id :: string
  permalink :: string

text \<open>An enriched show: the descriptive fields, the formatted setlist and the feature
  bag, which is \<open>None\<close> for the empty dictionary a show without setlist gets.\<close>

record enriched_show = base_row +
  setlist :: string
  song_features :: "feature_bag option"

definition get_show_setlist :: "extractor \<Rightarrow> string \<Rightarrow> world \<Rightarrow> item list option \<times> world" where
  "get_show_setlist self show_date w =
     (case make_request self (Setlist_by_date show_date) 3 w of
        (Some response, w') \<Rightarrow>
          (case e_data response of
             Some d \<Rightarrow> if error_is_False response then (Some d, w') else (None, w')
           | None \<Rightarrow> (None, w'))
      | (None, w') \<Rightarrow> (None, w'))"

text \<open>The body of the loop over the shows of a batch.\<close>

definition process_show ::
  "item \<Rightarrow> enriched_show list \<times> extractor \<times> world \<Rightarrow> enriched_show list \<times> extractor \<times> world" where
  "process_show show st =
     (case st of (enriched_shows, self, w) \<Rightarrow>
        (let show_date = get_or (j_showdate show) ''''
         in if lower (get_or (j_artist_name show) '''') \<noteq> ''phish''
              then (enriched_shows, self, w)
            else
              (case get_show_setlist self show_date w of
                 (detailed_setlist, w') \<Rightarrow>
                   (case (case detailed_setlist of
                            Some (e # es) \<Rightarrow>
                              (case extract_song_features_from_setlist self (e # es) of
                                 (bag, self') \<Rightarrow>
                                   (format_setlist_from_show (e # es), Some bag, self'))
                          | _ \<Rightarrow> ('''', None, self)) of
                      (setlist_formatted, features, self') \<Rightarrow>
                        (enriched_shows @
                           [\<lparr>show_id = get_or (j_showid show) '''',
                             date = show_date,
                             artist_name = get_or (j_artist_name show) '''',
                             venue = get_or (j_venue show) '''',
                             city = get_or (j_city show) '''',
                             state = get_or (j_state show) '''',
                             country = get_or (j_country show) '''',
                             tour_name = get_or (j_tour_name show) '''',
                             rating = get_or (j_rating show) '''',
                             reviews = get_or (j_reviews show) '''',
                             venue_id = get_or (j_venueid show) '''',
                             permalink = get_or (j_permalink show) '''',
                             setlist = setlist_formatted,
                             song_features = features\<rparr>],
                         self', w')))))"

text \<open>The loop \<open>for batch_start in range(0, total_shows, self.batch_size)\<close>, from
  \<open>batch_start\<close> on, with the pause after each batch but the last.\<close>

function enrich_batches ::
  "item list \<Rightarrow> nat \<Rightarrow> enriched_show list \<times> extractor \<times> world
     \<Rightarrow> enriched_show list \<times> extractor \<times> world" where
  "enrich_batches shows batch_start st =
     (let total_shows = length shows
      in if batch_start < total_shows then
           (let batch_end = min (batch_start + batch_size) total_shows;
                batch_shows = take (batch_end - batch_start) (drop batch_start shows)
            in case fold process_show batch_shows st of
                 (enriched_shows, self, w) \<Rightarrow>
                   enrich_batches shows (batch_start + batch_size)
                     (enriched_shows, self,
                      if batch_end < total_shows then emit (Batch_pause batch_delay) w else w))
         else st)"
  by pat_completeness auto
termination
  by (relation "measure (\<lambda>(shows, batch_start, st). length shows - batch_start)")
     (auto simp: batch_size_def)

declare enrich_batches.simps [simp del]

definition extract_all_data ::
  "extractor \<Rightarrow> int option \<Rightarrow> int option \<Rightarrow> world \<Rightarrow> enriched_show list \<times> extractor \<times> world" where
  "extract_all_data self start_year end_year w =
     (case get_all_shows self start_year end_year w of
        (shows, w1) \<Rightarrow>
          if shows = [] then ([], self, w1) else enrich_batches shows 0 ([], self, w1))"

text \<open>Every song name a feature bag mentions.\<close>

definition bag_songs :: "feature_bag \<Rightarrow> string set" where
  "bag_songs bag =
     set (songs_played bag) \<union> dom (song_counts bag) \<union> dom (set_positions bag)
       \<union> dom (has_segues bag) \<union> (\<Union>g\<in>set (set_info bag). set (snd g))"

text \<open>The invariant of the enrichment loops: the universe covers every bag built so
  far.\<close>

definition bags_covered :: "enriched_show list \<Rightarrow> extractor \<Rightarrow> bool" where
  "bags_covered enriched self \<longleftrightarrow>
     (\<forall>show\<in>set enriched. \<forall>bag. song_features show = Some bag \<longrightarrow>
        bag_songs bag \<subseteq> all_songs self)"

text \<open>A setlist answer, and a server that answers the first request with the sample
  catalog and every later request with that setlist.\<close>

definition sample_setlist :: "item list" where
  "sample_setlist =
     [empty_item\<lparr>j_set := Some ''Set 1'', j_song := Some ''Tweezer'', j_position := Some 1,
        j_segue := Some ''>''\<rparr>,
      empty_item\<lparr>j_set := Some ''Set 1'', j_song := Some ''Mike's Song'',
        j_position := Some 2, j_segue := Some ''''\<rparr>,
      empty_item\<lparr>j_set := Some ''Encore'', j_song := Some ''Tweezer'', j_position := Some 1\<rparr>]"

definition sample_server :: "nat \<Rightarrow> outcome" where
  "sample_server n =
     (if n = 0 then catalog_server n
      else Response 200 (Json \<lparr>e_error = Some (JBool False), e_data = Some sample_setlist\<rparr>))"

section \<open>What the formatter is specified to produce\<close>

text \<open>The elements of a list in the order of their first occurrence.\<close>

function first_occurrences :: "'a list \<Rightarrow> 'a list" where
  "first_occurrences [] = []"
| "first_occurrences (x # xs) = x # first_occurrences (removeAll x xs)"
  by pat_completeness auto
termination
  by (relation "measure length") (auto simp: length_removeAll_less_eq less_Suc_eq_le)

text \<open>The set label and the rendered song of an entry, and the groups the specification
  describes: one per set label, in the order in which the labels first occur, each with
  the entries of that set in their order in the list.\<close>

definition set_label :: "item \<Rightarrow> string" where
  "set_label entry = get_or (j_set entry) ''Unknown Set''"

definition rendered_song :: "item \<Rightarrow> int \<times> string" where
  "rendered_song entry =
     (get_or (j_position entry) 999,
      if has_segue_marker (get_or (j_segue entry) '''')
        then get_or (j_song entry) ''Unknown Song'' @ '' '' @ get_or (j_segue entry) '''' @ '' ''
      else get_or (j_song entry) ''Unknown Song'')"

definition grouped :: "item list \<Rightarrow> (string \<times> (int \<times> string) list) list" where
  "grouped entries =
     map (\<lambda>s. (s, map rendered_song (filter (\<lambda>e. set_label e = s) entries)))
       (first_occurrences (map set_label entries))"

section \<open>The long export: \<open>save_to_csv_ml_format\<close>\<close>







section \<open>The wide export: \<open>save_to_csv_wide_format\<close>\<close>















section \<open>The pairs of the round trip\<close>










section \<open>Properties of the column-name generator\<close>

lemma lower_char_underscore: "lower_char c = CHR ''_'' \<longleftrightarrow> c = CHR ''_''"
  by (auto simp: lower_char_def upper_letters_def lower_letters_def upper_latin1_def
      lower_latin1_def)

lemma lower_char_idem: "lower_char (lower_char c) = lower_char c"
  by (auto simp: lower_char_def upper_letters_def lower_letters_def upper_latin1_def
      lower_latin1_def)

lemma is_word_lower_char: "is_word_char (lower_char c) \<longleftrightarrow> is_word_char c"
  by (auto simp: is_word_char_def lower_char_def upper_letters_def lower_letters_def
      upper_latin1_def lower_latin1_def digit_chars_def)

lemma lower_idem: "lower (lower s) = lower s"
  by (simp add: lower_def lower_char_idem)

lemma sub_non_word_lower: "sub_non_word (lower s) = lower (sub_non_word s)"
  by (simp add: sub_non_word_def lower_def is_word_lower_char lower_char_underscore)
     (simp add: lower_char_def upper_letters_def lower_letters_def upper_latin1_def
        lower_latin1_def)

lemma collapse_lower: "collapse_underscores (lower s) = lower (collapse_underscores s)"
  unfolding lower_def
  by (induction s rule: collapse_underscores.induct) (simp_all add: lower_char_underscore)

lemma strip_by_lower:
  "strip_by (\<lambda>c. c = CHR ''_'') (lower s) = lower (strip_by (\<lambda>c. c = CHR ''_'') s)"
  by (simp add: strip_by_def lower_def dropWhile_map rev_map comp_def lower_char_underscore)

lemma rstrip_keeps_head:
  assumes "xs = [] \<or> \<not> P (hd xs)"
  shows "dropWhile P (rev (dropWhile P (rev xs))) = rev (dropWhile P (rev xs))"
proof -
  let ?k = "rev (dropWhile P (rev xs))"
  have "xs = rev (takeWhile P (rev xs) @ dropWhile P (rev xs))" by simp
  then have split: "xs = ?k @ rev (takeWhile P (rev xs))" by (simp only: rev_append)
  show ?thesis
  proof (cases "?k = []")
    case True show ?thesis unfolding True by simp
  next
    case False
    then have "hd xs = hd ?k" using split by (metis hd_append2)
    moreover have "xs \<noteq> []" using False by auto
    ultimately have "\<not> P (hd ?k)" using assms by auto
    then show ?thesis by (simp add: dropWhile_eq_self_iff)
  qed
qed

lemma strip_by_idem: "strip_by P (strip_by P s) = strip_by P s"
proof -
  have "dropWhile P s = [] \<or> \<not> P (hd (dropWhile P s))"
    by (cases "dropWhile P s = []") (simp_all add: hd_dropWhile)
  then show ?thesis
    by (simp add: strip_by_def rstrip_keeps_head)
qed

lemma set_collapse: "set (collapse_underscores s) \<subseteq> set s"
  by (induction s rule: collapse_underscores.induct) auto

lemma set_strip_by: "set (strip_by P s) \<subseteq> set s"
  by (auto simp: strip_by_def dest!: set_dropWhileD)

lemma sub_non_word_id: "\<forall>c\<in>set s. is_word_char c \<Longrightarrow> sub_non_word s = s"
  by (simp add: sub_non_word_def map_idI)

lemma sub_non_word_word: "c \<in> set (sub_non_word s) \<Longrightarrow> is_word_char c"
  by (auto simp: sub_non_word_def) (simp add: is_word_char_def)

lemma no_double_rev: "no_double (rev s) = no_double s"
  by (auto simp: no_double_def elim: successively_mono)

lemma collapse_hd:
  "collapse_underscores (x # xs) \<noteq> [] \<and> hd (collapse_underscores (x # xs)) = x"
  by (induction "x # xs" arbitrary: x xs rule: collapse_underscores.induct) auto

lemma no_double_collapse: "no_double (collapse_underscores s)"
proof (induction s rule: collapse_underscores.induct)
  case (1 a b xs)
  then show ?case using collapse_hd[of b xs]
    by (auto simp: no_double_def successively_Cons)
qed (simp_all add: no_double_def)

lemma collapse_id: "no_double s \<Longrightarrow> collapse_underscores s = s"
  by (induction s rule: collapse_underscores.induct) (auto simp: no_double_def)

lemma no_double_dropWhile: "no_double s \<Longrightarrow> no_double (dropWhile P s)"
proof -
  assume "no_double s"
  then have "no_double (takeWhile P s @ dropWhile P s)" by simp
  then show ?thesis unfolding no_double_def successively_append_iff by blast
qed

lemma no_double_strip_by: "no_double s \<Longrightarrow> no_double (strip_by P s)"
  unfolding strip_by_def
  by (simp add: no_double_rev no_double_dropWhile)

text \<open>The three steps before lowering, run twice, give what they give run once.\<close>

lemma clean_core_idem:
  defines "core \<equiv> (\<lambda>s. strip_by (\<lambda>c. c = CHR ''_'') (collapse_underscores (sub_non_word s)))"
  shows "core (core s) = core s"
proof -
  let ?u = "\<lambda>c. c = CHR ''_''"
  have "\<forall>c\<in>set (core s). is_word_char c"
    unfolding core_def using set_strip_by set_collapse sub_non_word_word by blast
  then have 1: "sub_non_word (core s) = core s" by (rule sub_non_word_id)
  have "no_double (core s)"
    unfolding core_def by (simp add: no_double_strip_by no_double_collapse)
  then have 2: "collapse_underscores (core s) = core s" by (rule collapse_id)
  have 3: "strip_by ?u (core s) = core s" unfolding core_def by (rule strip_by_idem)
  have "core (core s) = strip_by ?u (collapse_underscores (sub_non_word (core s)))"
    by (simp add: core_def)
  then show ?thesis by (simp only: 1 2 3)
qed

lemma clean_column_name_idem: "clean_column_name (clean_column_name s) = clean_column_name s"
  unfolding clean_column_name_def
  by (simp only: sub_non_word_lower collapse_lower strip_by_lower lower_idem clean_core_idem)

text \<open>
  Claim C3, as the code has it.  \<open>clean_column_name\<close> is idempotent; on the test
  vocabulary it sends "Run Like an Antelope" to "run_like_an_antelope" and "Mike's Song"
  to "mike_s_song" (the apostrophe becomes an underscore, it is not deleted), and the two
  column names differ.
\<close>

theorem C3_clean_column_name:
  "clean_column_name (clean_column_name s) = clean_column_name s
   \<and> clean_column_name ''Run Like an Antelope'' = ''run_like_an_antelope''
   \<and> clean_column_name ''Mike's Song'' = ''mike_s_song''
   \<and> clean_column_name ''Run Like an Antelope'' \<noteq> clean_column_name ''Mike's Song''"
proof -
  have a: "clean_column_name ''Run Like an Antelope'' = ''run_like_an_antelope''"
    by code_simp
  have b: "clean_column_name ''Mike's Song'' = ''mike_s_song''"
    by code_simp
  show ?thesis unfolding a b by (simp add: clean_column_name_idem)
qed

text \<open>The claim as the specification words it fails: the column name of "Mike's Song"
  is not "mikes_song".\<close>

theorem C3_mikes_song_counterexample:
  "clean_column_name ''Mike's Song'' \<noteq> ''mikes_song''"
  by code_simp

section \<open>Properties of the long export's parser\<close>

text \<open>
  Claim C4, as the code has it.  The formatted setlist
  "Set 1: Tweezer >, Mike's Song | Encore: Tweezer" parses to exactly three rows:
  (Set 1, 1, Tweezer, segue, ">"), (Set 1, 2, Mike's Song, no segue, "") and
  (Encore, 1, Tweezer, no segue, "").
\<close>

theorem C4_parse_example:
  "parse_setlist_for_ml ''Set 1: Tweezer >, Mike's Song | Encore: Tweezer'' =
     [\<lparr>set_name = ''Set 1'', song_position = 1, song_name = ''Tweezer'',
        has_segue = True, segue_info = ''>''\<rparr>,
      \<lparr>set_name = ''Set 1'', song_position = 2, song_name = ''Mike's Song'',
        has_segue = False, segue_info = ''''\<rparr>,
      \<lparr>set_name = ''Encore'', song_position = 1, song_name = ''Tweezer'',
        has_segue = False, segue_info = ''''\<rparr>]"
  by code_simp

text \<open>The row count the specification gives, four, is not the count of the rows it
  lists nor of the rows the parser returns.\<close>

theorem C4_four_rows_counterexample:
  "length (parse_setlist_for_ml ''Set 1: Tweezer >, Mike's Song | Encore: Tweezer'') \<noteq> 4"
  by code_simp

section \<open>Properties of the HTTP client wrapper\<close>

lemma http_get_simps:
  "fst (http_get ep w) = responses w (requests_made w)"
  "responses (snd (http_get ep w)) = responses w"
  "requests_made (snd (http_get ep w)) = Suc (requests_made w)"
  "trace (snd (http_get ep w)) = trace w @ [Request ep]"
  "current_year (snd (http_get ep w)) = current_year w"
  "json_error_is_request_error (snd (http_get ep w)) = json_error_is_request_error w"
  by (simp_all add: http_get_def)

lemma emit_simps:
  "responses (emit e w) = responses w"
  "requests_made (emit e w) = requests_made w"
  "trace (emit e w) = trace w @ [e]"
  "current_year (emit e w) = current_year w"
  "json_error_is_request_error (emit e w) = json_error_is_request_error w"
  by (simp_all add: emit_def)

lemma attempts_all_429:
  assumes "\<forall>k. int (attempt + k) < rc \<longrightarrow>
             (\<exists>b. responses w (requests_made w + k) = Response 429 b)"
  shows "attempts ep rc attempt w =
           (None, w\<lparr>requests_made := requests_made w + (nat rc - attempt),
                     trace := trace w @ rate_limited_run ep attempt (nat rc)\<rparr>)"
  using assms
proof (induction ep rc attempt w rule: attempts.induct)
  case (1 ep rc attempt w)
  show ?case
  proof (cases "int attempt < rc")
    case False
    then have "nat rc - attempt = 0" "[attempt..<nat rc] = []" by auto
    then show ?thesis using False
      by (subst attempts.simps) (simp add: rate_limited_run_def)
  next
    case True
    from "1.prems"[rule_format, of 0] True obtain b where
      r: "responses w (requests_made w) = Response 429 b" by auto
    let ?w1 = "snd (http_get ep w)"
    let ?w2 = "emit (Rate_limit_wait (5 * (int attempt + 1))) ?w1"
    have hg: "http_get ep w = (Response 429 b, ?w1)"
      using r by (simp add: http_get_def)
    have pre: "\<forall>k. int (Suc attempt + k) < rc \<longrightarrow>
        (\<exists>b. responses ?w2 (requests_made ?w2 + k) = Response 429 b)"
    proof (intro allI impI)
      fix k assume "int (Suc attempt + k) < rc"
      then have "int (attempt + Suc k) < rc" by simp
      with "1.prems" obtain b where "responses w (requests_made w + Suc k) = Response 429 b"
        by blast
      then show "\<exists>b. responses ?w2 (requests_made ?w2 + k) = Response 429 b"
        by (simp add: emit_simps http_get_simps)
    qed
    have ih: "attempts ep rc (Suc attempt) ?w2 =
           (None, ?w2\<lparr>requests_made := requests_made ?w2 + (nat rc - Suc attempt),
                     trace := trace ?w2 @ rate_limited_run ep (Suc attempt) (nat rc)\<rparr>)"
      using "1.IH"(2)[OF True hg[symmetric] refl _ pre] by simp
    have lt: "attempt < nat rc" using True by simp
    have step: "attempts ep rc attempt w = attempts ep rc (Suc attempt) ?w2"
      using True r by (subst attempts.simps) (simp add: http_get_def)
    show ?thesis unfolding step ih
      using lt by (simp add: emit_def http_get_def rate_limited_run_def upt_conv_Cons)
  qed
qed

text \<open>
  Claim C1.  With an API key configured, a server that answers status 429 to every attempt
  is asked exactly \<open>retry_count\<close> times (\<open>nat retry_count\<close>: none for a negative
  count); after the k-th request the client sleeps \<open>5 * k\<close> seconds, and the call
  returns \<open>None\<close>.  The result is a value of the model, so nothing escapes to the
  caller.
\<close>

theorem C1_rate_limited_retries:
  assumes "api_key self \<noteq> []"
    and "\<forall>k < nat retry_count. \<exists>b. responses w (requests_made w + k) = Response 429 b"
  shows "make_request self ep retry_count w =
           (None, w\<lparr>requests_made := requests_made w + nat retry_count,
                     trace := trace w @ rate_limited_run ep 0 (nat retry_count)\<rparr>)"
proof -
  have "\<forall>k. int (0 + k) < retry_count \<longrightarrow>
          (\<exists>b. responses w (requests_made w + k) = Response 429 b)"
    using assms(2) by auto
  from attempts_all_429[OF this, of ep] assms(1) show ?thesis
    by (simp add: make_request_def)
qed

theorem C1_rate_limited_retries_witness:
  "make_request main_extractor (Other_endpoint ''shows/tiph.json'') 3
     (fresh_world (\<lambda>n. Response 429 Not_json)) =
   (None, \<lparr>responses = (\<lambda>n. Response 429 Not_json), requests_made = 3,
            trace = [Request (Other_endpoint ''shows/tiph.json''), Rate_limit_wait 5,
                     Request (Other_endpoint ''shows/tiph.json''), Rate_limit_wait 10,
                     Request (Other_endpoint ''shows/tiph.json''), Rate_limit_wait 15],
            current_year = 2024, json_error_is_request_error = True\<rparr>)"
  using C1_rate_limited_retries [of main_extractor 3 "fresh_world (\<lambda>n. Response 429 Not_json)"
      "Other_endpoint ''shows/tiph.json''"]
  by (simp add: main_extractor_def fresh_world_def rate_limited_run_def upt_conv_Cons)

lemma attempts_stop: "\<not> int a < rc \<Longrightarrow> attempts ep rc a w = (None, w)"
  by (subst attempts.simps) simp

lemma attempts_continue:
  assumes "int a < rc" and "\<not> passes_status (responses w (requests_made w))"
    and "int a < rc - 1 \<or> (\<exists>b. responses w (requests_made w) = Response 429 b)"
  shows "\<exists>e. (\<forall>d. e \<noteq> Request_delay d) \<and>
           attempts ep rc a w = attempts ep rc (Suc a) (emit e (snd (http_get ep w)))"
proof (cases "responses w (requests_made w)")
  case Transport_error
  with assms have "attempts ep rc a w =
      attempts ep rc (Suc a) (emit (Retry_wait (2 * (int a + 1))) (snd (http_get ep w)))"
    by (subst attempts.simps) (simp add: http_get_def)
  then show ?thesis by blast
next
  case (Response status b)
  show ?thesis
  proof (cases "status = 429")
    case True
    with assms Response have "attempts ep rc a w =
      attempts ep rc (Suc a) (emit (Rate_limit_wait (5 * (int a + 1))) (snd (http_get ep w)))"
      by (subst attempts.simps) (simp add: http_get_def)
    then show ?thesis by blast
  next
    case False
    with assms Response have "attempts ep rc a w =
      attempts ep rc (Suc a) (emit (Retry_wait (2 * (int a + 1))) (snd (http_get ep w)))"
      by (subst attempts.simps) (simp add: http_get_def passes_status_def)
    then show ?thesis by blast
  qed
qed

lemma attempts_give_up:
  assumes "int a < rc" and "\<not> passes_status (responses w (requests_made w))"
    and "\<not> int a < rc - 1" and "\<not> (\<exists>b. responses w (requests_made w) = Response 429 b)"
  shows "attempts ep rc a w = (None, snd (http_get ep w))"
  using assms
  by (subst attempts.simps)
     (auto simp: http_get_def passes_status_def split: outcome.splits)

text \<open>A response that passes the status checks but whose decoding failure is caught by
  the first handler, before the last attempt: the delay has been slept, and the loop
  continues.\<close>

lemma attempts_decode_retry:
  assumes "int a < rc" and "passes_status (responses w (requests_made w))"
    and "\<exists>status. responses w (requests_made w) = Response status Not_json"
    and "json_error_is_request_error w" and "int a < rc - 1"
  shows "attempts ep rc a w =
           attempts ep rc (Suc a)
             (emit (Retry_wait (2 * (int a + 1)))
                (emit (Request_delay request_delay) (snd (http_get ep w))))"
  using assms
  by (subst attempts.simps)
     (auto simp: http_get_def passes_status_def Let_def)

lemma attempts_pass:
  assumes "int a < rc" and "passes_status (responses w (requests_made w))"
    and "\<not> ((\<exists>status. responses w (requests_made w) = Response status Not_json)
            \<and> json_error_is_request_error w \<and> int a < rc - 1)"
  shows "snd (attempts ep rc a w) = emit (Request_delay request_delay) (snd (http_get ep w))"
proof (cases "responses w (requests_made w)")
  case Transport_error
  with assms(2) show ?thesis by (simp add: passes_status_def)
next
  case (Response status b)
  show ?thesis
  proof (cases b)
    case Not_json
    with Response assms show ?thesis
      by (subst attempts.simps) (auto simp: http_get_def passes_status_def Let_def)
  next
    case (Json data)
    with Response assms(1,2) show ?thesis
      by (subst attempts.simps) (simp add: http_get_def passes_status_def Let_def)
  qed
qed

lemma ex_nat_split: "(\<exists>k. R k) \<longleftrightarrow> R 0 \<or> (\<exists>k. R (Suc k))"
  by (metis not0_implies_Suc)

lemma attempts_trace:
  "\<exists>new. trace (snd (attempts ep rc a w)) = trace w @ new \<and>
     (Request_delay request_delay \<in> set new \<longleftrightarrow>
        (\<exists>k. int (a + k) < rc \<and> passes_status (responses w (requests_made w + k)))) \<and>
     (fst (attempts ep rc a w) \<noteq> None \<longrightarrow> Request_delay request_delay \<in> set new)"
proof (induction "nat rc - a" arbitrary: a w)
  case 0
  then have "\<not> int a < rc" by simp
  then show ?case by (simp add: attempts_stop)
next
  case (Suc n)
  then have lt: "int a < rc" by linarith
  let ?n = "requests_made w"
  let ?w1 = "snd (http_get ep w)"
  show ?case
  proof (cases "passes_status (responses w ?n)")
    case True
    have ex: "\<exists>k. int (a + k) < rc \<and> passes_status (responses w (?n + k))"
      using lt True by (intro exI[of _ 0]) simp
    show ?thesis
    proof (cases "(\<exists>status. responses w ?n = Response status Not_json)
            \<and> json_error_is_request_error w \<and> int a < rc - 1")
      case False
      have "trace (snd (attempts ep rc a w))
          = trace w @ [Request ep, Request_delay request_delay]"
        using attempts_pass[OF lt True False] by (simp add: emit_simps http_get_simps)
      with ex show ?thesis by simp
    next
      case retry: True
      let ?w3 = "emit (Retry_wait (2 * (int a + 1)))
                   (emit (Request_delay request_delay) ?w1)"
      from retry have step: "attempts ep rc a w = attempts ep rc (Suc a) ?w3"
        by (intro attempts_decode_retry[OF lt True]) simp_all
      have "n = nat rc - Suc a" using Suc.hyps(2) by simp
      from Suc.hyps(1)[OF this, of ?w3] obtain new where
        "trace (snd (attempts ep rc (Suc a) ?w3)) = trace ?w3 @ new" by blast
      then have "trace (snd (attempts ep rc a w))
          = trace w @ ([Request ep, Request_delay request_delay,
                        Retry_wait (2 * (int a + 1))] @ new)"
        using step by (simp add: emit_simps http_get_simps)
      moreover have "Request_delay request_delay
          \<in> set ([Request ep, Request_delay request_delay,
                   Retry_wait (2 * (int a + 1))] @ new)" by simp
      ultimately show ?thesis using ex by blast
    qed
  next
    case False
    show ?thesis
    proof (cases "int a < rc - 1 \<or> (\<exists>b. responses w ?n = Response 429 b)")
      case True
      from attempts_continue[OF lt False True, of ep] obtain e where
        e: "\<forall>d. e \<noteq> Request_delay d"
        and step: "attempts ep rc a w = attempts ep rc (Suc a) (emit e ?w1)" by blast
      let ?w2 = "emit e ?w1"
      have "n = nat rc - Suc a" using Suc.hyps(2) by simp
      from Suc.hyps(1)[OF this, of ?w2] obtain new where
        t: "trace (snd (attempts ep rc (Suc a) ?w2)) = trace ?w2 @ new"
        and d: "Request_delay request_delay \<in> set new \<longleftrightarrow>
          (\<exists>k. int (Suc a + k) < rc \<and> passes_status (responses ?w2 (requests_made ?w2 + k)))"
        and r: "fst (attempts ep rc (Suc a) ?w2) \<noteq> None \<longrightarrow>
          Request_delay request_delay \<in> set new"
        by blast
      have t': "trace (snd (attempts ep rc a w)) = trace w @ ([Request ep, e] @ new)"
        using t step by (simp add: emit_simps http_get_simps)
      have "(\<exists>k. int (a + k) < rc \<and> passes_status (responses w (?n + k))) \<longleftrightarrow>
            (\<exists>k. int (Suc a + k) < rc \<and> passes_status (responses ?w2 (requests_made ?w2 + k)))"
        using False
        by (subst ex_nat_split) (simp add: emit_simps http_get_simps)
      with d e r step have
        "(Request_delay request_delay \<in> set ([Request ep, e] @ new) \<longleftrightarrow>
          (\<exists>k. int (a + k) < rc \<and> passes_status (responses w (?n + k))))
        \<and> (fst (attempts ep rc a w) \<noteq> None \<longrightarrow>
            Request_delay request_delay \<in> set ([Request ep, e] @ new))"
        by auto
      with t' show ?thesis by blast
    next
      case g: False
      then have g1: "\<not> int a < rc - 1" and g2: "\<not> (\<exists>b. responses w ?n = Response 429 b)"
        by auto
      have res: "attempts ep rc a w = (None, ?w1)"
        by (rule attempts_give_up[OF lt False g1 g2])
      have "\<not> (\<exists>k. int (a + k) < rc \<and> passes_status (responses w (?n + k)))"
      proof
        assume "\<exists>k. int (a + k) < rc \<and> passes_status (responses w (?n + k))"
        then obtain k where k: "int (a + k) < rc" "passes_status (responses w (?n + k))"
          by blast
        with g1 have "k = 0" by linarith
        with k False show False by simp
      qed
      then show ?thesis by (simp add: res http_get_simps)
    qed
  qed
qed

text \<open>
  Claim C2, as the code has it.  \<open>make_request\<close> sleeps the request delay on every call
  that returns a result, and more generally exactly on the calls in which some response
  gets past the status checks: the sleep comes before the body is decoded, so it is also
  slept when the body carries a truthy \<open>error\<close> or is not JSON.  It is not slept when
  no API key is configured or when no attempt gets past the status checks.
\<close>

theorem C2_request_delay:
  "(fst (make_request self ep retry_count w) \<noteq> None \<longrightarrow>
      Request_delay request_delay
        \<in> set (new_events w (snd (make_request self ep retry_count w))))
   \<and> (Request_delay request_delay
        \<in> set (new_events w (snd (make_request self ep retry_count w))) \<longleftrightarrow>
      api_key self \<noteq> [] \<and>
      (\<exists>k. int k < retry_count \<and> passes_status (responses w (requests_made w + k))))"
proof (cases "api_key self = []")
  case True
  then show ?thesis by (simp add: make_request_def new_events_def)
next
  case False
  from attempts_trace[of ep retry_count 0 w] obtain new where
    "trace (snd (attempts ep retry_count 0 w)) = trace w @ new"
    "Request_delay request_delay \<in> set new \<longleftrightarrow>
       (\<exists>k. int (0 + k) < retry_count \<and> passes_status (responses w (requests_made w + k)))"
    "fst (attempts ep retry_count 0 w) \<noteq> None \<longrightarrow> Request_delay request_delay \<in> set new"
    by blast
  with False show ?thesis by (simp add: make_request_def new_events_def)
qed

theorem C2_request_delay_witness:
  "fst (make_request main_extractor (Other_endpoint ''shows/tiph.json'') 3
         (fresh_world (\<lambda>n. Response 200 (Json \<lparr>e_error = Some (JBool False), e_data = Some []\<rparr>))))
     \<noteq> None
   \<and> Request_delay request_delay \<in> set (new_events
        (fresh_world (\<lambda>n. Response 200 (Json \<lparr>e_error = Some (JBool False), e_data = Some []\<rparr>)))
        (snd (make_request main_extractor (Other_endpoint ''shows/tiph.json'') 3
          (fresh_world (\<lambda>n. Response 200 (Json \<lparr>e_error = Some (JBool False), e_data = Some []\<rparr>))))))"
proof -
  let ?w = "fresh_world (\<lambda>n. Response 200 (Json \<lparr>e_error = Some (JBool False), e_data = Some []\<rparr>))"
  let ?ep = "Other_endpoint ''shows/tiph.json''"
  have "fst (make_request main_extractor ?ep 3 ?w) \<noteq> None"
    by (subst make_request_def, subst attempts.simps)
       (simp add: main_extractor_def fresh_world_def http_get_def raises_for_status_def
          get_or_def Let_def)
  with C2_request_delay [of main_extractor ?ep 3 ?w] show ?thesis by blast
qed

text \<open>The claim as the specification words it fails: a 200 response whose body carries
  an error message, and a 200 response whose body is not JSON (whichever handler catches
  the decoding failure), end in \<open>None\<close> after the request delay has been slept.\<close>

theorem C2_delay_on_failure_counterexample:
  "fst (make_request main_extractor (Other_endpoint ''shows/tiph.json'') 3
     (fresh_world (\<lambda>n. Response 200
        (Json \<lparr>e_error = Some (JStr ''Invalid API key''), e_data = None\<rparr>)))) = None
   \<and> trace (snd (make_request main_extractor (Other_endpoint ''shows/tiph.json'') 3
     (fresh_world (\<lambda>n. Response 200
        (Json \<lparr>e_error = Some (JStr ''Invalid API key''), e_data = None\<rparr>)))))
     = [Request (Other_endpoint ''shows/tiph.json''), Request_delay (1 / 2)]
   \<and> fst (make_request main_extractor (Other_endpoint ''shows/tiph.json'') 3
     ((fresh_world (\<lambda>n. Response 200 Not_json))\<lparr>json_error_is_request_error := False\<rparr>))
     = None
   \<and> trace (snd (make_request main_extractor (Other_endpoint ''shows/tiph.json'') 3
     ((fresh_world (\<lambda>n. Response 200 Not_json))\<lparr>json_error_is_request_error := False\<rparr>)))
     = [Request (Other_endpoint ''shows/tiph.json''), Request_delay (1 / 2)]
   \<and> fst (make_request main_extractor (Other_endpoint ''shows/tiph.json'') 3
     (fresh_world (\<lambda>n. Response 200 Not_json))) = None
   \<and> trace (snd (make_request main_extractor (Other_endpoint ''shows/tiph.json'') 3
     (fresh_world (\<lambda>n. Response 200 Not_json))))
     = [Request (Other_endpoint ''shows/tiph.json''), Request_delay (1 / 2), Retry_wait 2,
        Request (Other_endpoint ''shows/tiph.json''), Request_delay (1 / 2), Retry_wait 4,
        Request (Other_endpoint ''shows/tiph.json''), Request_delay (1 / 2)]"
  by code_simp

section \<open>Properties of the catalog fetcher\<close>

lemma fetch_year_phish:
  assumes "\<forall>s\<in>set (fst st). is_phish s"
  shows "\<forall>s\<in>set (fst (fetch_year self year st)). is_phish s"
  using assms
  by (auto simp: fetch_year_def split: prod.splits option.splits if_splits)

lemma fold_fetch_year_phish:
  "\<forall>s\<in>set (fst st). is_phish s \<Longrightarrow>
   \<forall>s\<in>set (fst (fold (fetch_year self) years st)). is_phish s"
proof (induction years arbitrary: st)
  case Nil
  then show ?case by simp
next
  case (Cons y years)
  have "\<forall>s\<in>set (fst (fetch_year self y st)). is_phish s"
    using Cons.prems by (rule fetch_year_phish)
  then show ?case using Cons.IH by simp
qed

lemma year_batches_phish:
  "\<forall>s\<in>set (fst st). is_phish s \<Longrightarrow>
   \<forall>s\<in>set (fst (year_batches self end_year year_start st)). is_phish s"
proof (induction self end_year year_start st rule: year_batches.induct)
  case (1 self end_year year_start st)
  show ?case
  proof (cases "year_start \<le> end_year")
    case False
    then show ?thesis using "1.prems" by (subst year_batches.simps) simp
  next
    case True
    let ?year_end = "min (year_start + 5 - 1) end_year"
    obtain all_shows w where f: "fold (fetch_year self) [year_start..?year_end] st = (all_shows, w)"
      by (cases "fold (fetch_year self) [year_start..?year_end] st")
    let ?w = "if ?year_end < end_year then emit (Batch_pause batch_delay) w else w"
    have "\<forall>s\<in>set (fst (fold (fetch_year self) [year_start..?year_end] st)). is_phish s"
      using "1.prems" by (rule fold_fetch_year_phish)
    then have "\<forall>s\<in>set (fst (all_shows, ?w)). is_phish s" using f by simp
    then have "\<forall>s\<in>set (fst (year_batches self end_year (year_start + 5) (all_shows, ?w))).
        is_phish s"
      by (rule "1.IH"[OF True refl f[symmetric]])
    moreover have "year_batches self end_year year_start st =
        year_batches self end_year (year_start + 5) (all_shows, ?w)"
      using True f by (subst year_batches.simps) (simp add: Let_def)
    ultimately show ?thesis by simp
  qed
qed

text \<open>
  Claim C9.  Whatever the year range and whatever the server answers, every record that
  \<open>get_all_shows\<close> returns has an artist name that, lowered, is "phish"; a record with
  any other artist name is not in the output.
\<close>

theorem C9_only_phish_shows:
  "\<forall>show \<in> set (fst (get_all_shows self start_year end_year w)).
     lower (get_or (j_artist_name show) '''') = ''phish''"
proof -
  have "\<forall>s\<in>set (fst ([], w)). is_phish s" by simp
  then have "\<forall>s\<in>set (fst (year_batches self (get_or end_year (current_year w))
      (get_or start_year 1983) ([], w))). is_phish s"
    by (rule year_batches_phish)
  then show ?thesis by (simp add: get_all_shows_def is_phish_def)
qed

theorem C9_only_phish_shows_witness:
  "map j_showdate (fst (get_all_shows main_extractor (Some 1997) (Some 1997)
       (fresh_world catalog_server))) = [Some ''1997-11-17'', Some ''1997-11-19'']
   \<and> list_all (\<lambda>show. lower (get_or (j_artist_name show) '''') = ''phish'')
       (fst (get_all_shows main_extractor (Some 1997) (Some 1997) (fresh_world catalog_server)))"
proof -
  have "map j_showdate (fst (get_all_shows main_extractor (Some 1997) (Some 1997)
       (fresh_world catalog_server))) = [Some ''1997-11-17'', Some ''1997-11-19'']"
    by code_simp
  then show ?thesis
    using C9_only_phish_shows [of main_extractor "Some 1997" "Some 1997"
        "fresh_world catalog_server"]
    by (simp add: list_all_iff)
qed

section \<open>Properties of the enrichment phase\<close>

lemma groups_append_group:
  "(\<Union>g\<in>set (append_group k v gs). set (snd g)) = insert v (\<Union>g\<in>set gs. set (snd g))"
  by (induction k v gs rule: append_group.induct) auto

lemma bag_songs_add:
  "bag_songs (bag\<lparr>songs_played := songs_played bag @ [s],
                     song_counts := (song_counts bag)(s \<mapsto> c),
                     set_positions := (set_positions bag)(s \<mapsto> p),
                     has_segues := (has_segues bag)(s \<mapsto> h),
                     set_info := append_group k s (set_info bag)\<rparr>) = insert s (bag_songs bag)"
proof -
  have "(\<Union>g\<in>set (append_group k s (set_info bag)). set (snd g)) =
        insert s (\<Union>g\<in>set (set_info bag). set (snd g))"
    by (rule groups_append_group)
  then show ?thesis unfolding bag_songs_def by simp
qed

lemma feature_step_covered:
  assumes "bag_songs bag \<subseteq> all_songs self" and "feature_step entry (bag, self) = (bag', self')"
  shows "bag_songs bag' \<subseteq> all_songs self' \<and> all_songs self \<subseteq> all_songs self'"
proof (cases "strip (get_or (j_song entry) ''Unknown Song'') \<noteq> [] \<and>
              strip (get_or (j_song entry) ''Unknown Song'') \<noteq> ''Unknown Song''")
  case True
  let ?s = "strip (get_or (j_song entry) ''Unknown Song'')"
  from True assms(2) have "self' = self\<lparr>all_songs := insert ?s (all_songs self)\<rparr>"
    and "bag_songs bag' = insert ?s (bag_songs bag)"
    by (auto simp: feature_step_def Let_def bag_songs_add)
  with assms(1) show ?thesis by auto
next
  case False
  with assms show ?thesis by (auto simp: feature_step_def Let_def)
qed

lemma fold_feature_step_covered:
  assumes "bag_songs bag \<subseteq> all_songs self"
    and "fold feature_step entries (bag, self) = (bag', self')"
  shows "bag_songs bag' \<subseteq> all_songs self' \<and> all_songs self \<subseteq> all_songs self'"
  using assms
proof (induction entries arbitrary: bag self)
  case Nil
  then show ?case by simp
next
  case (Cons e es)
  obtain b1 s1 where st: "feature_step e (bag, self) = (b1, s1)"
    by (cases "feature_step e (bag, self)")
  from feature_step_covered[OF Cons.prems(1) st]
  have 1: "bag_songs b1 \<subseteq> all_songs s1" and 2: "all_songs self \<subseteq> all_songs s1" by auto
  from Cons.prems(2) st have "fold feature_step es (b1, s1) = (bag', self')" by simp
  from Cons.IH[OF 1 this] 2 show ?case by auto
qed

lemma extract_features_covered:
  assumes "extract_song_features_from_setlist self entries = (bag, self')"
  shows "bag_songs bag \<subseteq> all_songs self' \<and> all_songs self \<subseteq> all_songs self'"
proof -
  have "bag_songs empty_features \<subseteq> all_songs self"
    by (simp add: bag_songs_def empty_features_def)
  from fold_feature_step_covered[OF this] assms show ?thesis
    by (simp add: extract_song_features_from_setlist_def)
qed

lemma bags_covered_mono:
  "bags_covered enriched self \<Longrightarrow> all_songs self \<subseteq> all_songs self' \<Longrightarrow>
   bags_covered enriched self'"
  unfolding bags_covered_def by blast

lemma process_show_covered:
  assumes "bags_covered enriched self"
    and "process_show show (enriched, self, w) = (enriched', self', w')"
  shows "bags_covered enriched' self'"
proof (cases "lower (get_or (j_artist_name show) '''') \<noteq> ''phish''")
  case True
  with assms show ?thesis by (simp add: process_show_def)
next
  case False
  obtain d w1 where g: "get_show_setlist self (get_or (j_showdate show) '''') w = (d, w1)"
    by (cases "get_show_setlist self (get_or (j_showdate show) '''') w")
  show ?thesis
  proof (cases "\<exists>e es. d = Some (e # es)")
    case True
    then obtain e es where d: "d = Some (e # es)" by blast
    obtain bag s1 where x: "extract_song_features_from_setlist self (e # es) = (bag, s1)"
      by (cases "extract_song_features_from_setlist self (e # es)")
    from extract_features_covered[OF x]
    have c: "bag_songs bag \<subseteq> all_songs s1" and m: "all_songs self \<subseteq> all_songs s1" by auto
    from assms(2) False g d x have self': "self' = s1"
      and en: "\<exists>row. enriched' = enriched @ [row] \<and> song_features row = Some bag"
      by (auto simp: process_show_def Let_def)
    from en obtain row where row: "enriched' = enriched @ [row]" "song_features row = Some bag"
      by blast
    have old: "bags_covered enriched s1" by (rule bags_covered_mono[OF assms(1) m])
    show ?thesis
      unfolding self' bags_covered_def
    proof (intro ballI allI impI)
      fix sh b assume sh: "sh \<in> set enriched'" and b: "song_features sh = Some b"
      show "bag_songs b \<subseteq> all_songs s1"
      proof (cases "sh = row")
        case True
        with b row c show ?thesis by simp
      next
        case False
        with sh row have "sh \<in> set enriched" by simp
        with old b show ?thesis unfolding bags_covered_def by blast
      qed
    qed
  next
    case no: False
    then have "(case d of Some (e # es) \<Rightarrow>
                              (case extract_song_features_from_setlist self (e # es) of
                                 (bag, self') \<Rightarrow>
                                   (format_setlist_from_show (e # es), Some bag, self'))
                          | _ \<Rightarrow> ('''', None, self)) = ('''', None, self)"
      by (auto split: option.splits list.splits)
    with assms(2) False g have self': "self' = self"
      and "\<exists>row. enriched' = enriched @ [row] \<and> song_features row = None"
      by (auto simp: process_show_def Let_def)
    then obtain row where row: "enriched' = enriched @ [row]" "song_features row = None"
      by blast
    show ?thesis
      unfolding self' bags_covered_def
    proof (intro ballI allI impI)
      fix sh b assume sh: "sh \<in> set enriched'" and b: "song_features sh = Some b"
      with row have "sh \<in> set enriched" by auto
      with assms(1) b show "bag_songs b \<subseteq> all_songs self" unfolding bags_covered_def by blast
    qed
  qed
qed

lemma fold_process_show_covered:
  assumes "bags_covered (fst st) (fst (snd st))"
  shows "bags_covered (fst (fold process_show batch st)) (fst (snd (fold process_show batch st)))"
  using assms
proof (induction batch arbitrary: st)
  case Nil
  then show ?case by simp
next
  case (Cons s batch)
  obtain en self w where st: "st = (en, self, w)" by (cases st)
  obtain en1 self1 w1 where p: "process_show s (en, self, w) = (en1, self1, w1)"
    by (cases "process_show s (en, self, w)")
  from Cons.prems st have "bags_covered en self" by simp
  from process_show_covered[OF this p] have "bags_covered (fst (en1, self1, w1)) (fst (snd (en1, self1, w1)))"
    by simp
  from Cons.IH[OF this] show ?case by (simp add: st p)
qed

lemma enrich_batches_covered:
  assumes "bags_covered (fst st) (fst (snd st))"
  shows "bags_covered (fst (enrich_batches raw_shows batch_start st))
           (fst (snd (enrich_batches raw_shows batch_start st)))"
  using assms
proof (induction raw_shows batch_start st rule: enrich_batches.induct)
  case (1 raw_shows batch_start st)
  show ?case
  proof (cases "batch_start < length raw_shows")
    case False
    then show ?thesis using "1.prems" by (subst (1 2) enrich_batches.simps) simp
  next
    case True
    let ?batch_end = "min (batch_start + batch_size) (length raw_shows)"
    let ?batch = "take (?batch_end - batch_start) (drop batch_start raw_shows)"
    obtain en self w where f: "fold process_show ?batch st = (en, self, w)"
      by (cases "fold process_show ?batch st")
    let ?w = "if ?batch_end < length raw_shows then emit (Batch_pause batch_delay) w else w"
    from fold_process_show_covered[OF "1.prems", of ?batch] f
    have "bags_covered (fst (en, self, ?w)) (fst (snd (en, self, ?w)))" by simp
    from "1.IH"[OF refl True refl refl f[symmetric] refl this]
    have "bags_covered (fst (enrich_batches raw_shows (batch_start + batch_size) (en, self, ?w)))
           (fst (snd (enrich_batches raw_shows (batch_start + batch_size) (en, self, ?w))))" .
    moreover have "enrich_batches raw_shows batch_start st =
        enrich_batches raw_shows (batch_start + batch_size) (en, self, ?w)"
      using True f by (subst enrich_batches.simps) (simp add: Let_def)
    ultimately show ?thesis by simp
  qed
qed

text \<open>
  Claim C6.  After \<open>extract_all_data\<close>, whatever the year range, the server's answers
  and the universe the extractor started with, the universe \<open>all_songs\<close> contains every
  song name of every enriched show's feature bag: its \<open>songs_played\<close> list, the keys of
  \<open>song_counts\<close>, \<open>set_positions\<close> and \<open>has_segues\<close>, and the values of
  \<open>set_info\<close>.
\<close>

theorem C6_universe_covers_bags:
  "\<forall>show \<in> set (fst (extract_all_data self start_year end_year w)).
     \<forall>bag. song_features show = Some bag \<longrightarrow>
       bag_songs bag \<subseteq> all_songs (fst (snd (extract_all_data self start_year end_year w)))"
proof -
  obtain raw_shows w1 where g: "get_all_shows self start_year end_year w = (raw_shows, w1)"
    by (cases "get_all_shows self start_year end_year w")
  have "bags_covered (fst ([], self, w1)) (fst (snd ([], self, w1)))"
    by (simp add: bags_covered_def)
  from enrich_batches_covered[OF this, of raw_shows 0] g show ?thesis
    by (simp add: extract_all_data_def bags_covered_def)
qed

theorem C6_universe_covers_bags_witness:
  "map (map_option songs_played \<circ> song_features)
     (fst (extract_all_data main_extractor (Some 1997) (Some 1997) (fresh_world sample_server)))
     = [Some [''Tweezer'', ''Mike's Song'', ''Tweezer''],
        Some [''Tweezer'', ''Mike's Song'', ''Tweezer'']]
   \<and> ''Tweezer'' \<in> all_songs (fst (snd (extract_all_data main_extractor (Some 1997)
         (Some 1997) (fresh_world sample_server))))
   \<and> ''Mike's Song'' \<in> all_songs (fst (snd (extract_all_data main_extractor (Some 1997)
         (Some 1997) (fresh_world sample_server))))"
proof -
  let ?r = "extract_all_data main_extractor (Some 1997) (Some 1997) (fresh_world sample_server)"
  have ev: "map (map_option songs_played \<circ> song_features) (fst ?r)
     = [Some [''Tweezer'', ''Mike's Song'', ''Tweezer''],
        Some [''Tweezer'', ''Mike's Song'', ''Tweezer'']]"
    by code_simp
  then obtain sh rest where sh: "fst ?r = sh # rest" by (cases "fst ?r") auto
  with ev obtain bag where bag: "song_features sh = Some bag"
    "songs_played bag = [''Tweezer'', ''Mike's Song'', ''Tweezer'']" by auto
  have "sh \<in> set (fst ?r)" using sh by simp
  with C6_universe_covers_bags [of main_extractor "Some 1997" "Some 1997"
      "fresh_world sample_server"] bag
  have "bag_songs bag \<subseteq> all_songs (fst (snd ?r))" by blast
  moreover have "''Tweezer'' \<in> bag_songs bag" "''Mike's Song'' \<in> bag_songs bag"
    using bag by (simp_all add: bag_songs_def)
  ultimately show ?thesis using ev by blast
qed

section \<open>Properties of the formatter\<close>

lemma set_first_occurrences: "set (first_occurrences xs) = set xs"
  by (induction xs rule: first_occurrences.induct) auto

lemma distinct_first_occurrences: "distinct (first_occurrences xs)"
  by (induction xs rule: first_occurrences.induct) (auto simp: set_first_occurrences)

lemma first_occurrences_snoc:
  "first_occurrences (xs @ [x]) =
     (if x \<in> set xs then first_occurrences xs else first_occurrences xs @ [x])"
  by (induction xs rule: first_occurrences.induct) auto

lemma append_group_map:
  "distinct ks \<Longrightarrow>
   append_group k v (map (\<lambda>s. (s, g s)) ks) =
     (if k \<in> set ks then map (\<lambda>s. (s, if s = k then g s @ [v] else g s)) ks
      else map (\<lambda>s. (s, g s)) ks @ [(k, [v])])"
  by (induction ks) auto

lemma format_step_eq:
  "format_step entry sets = append_group (set_label entry) (rendered_song entry) sets"
  by (simp add: format_step_def set_label_def rendered_song_def Let_def)

lemma grouped_snoc:
  "grouped (entries @ [e]) = append_group (set_label e) (rendered_song e) (grouped entries)"
proof -
  let ?ks = "first_occurrences (map set_label entries)"
  let ?g = "\<lambda>s. map rendered_song (filter (\<lambda>e. set_label e = s) entries)"
  have d: "distinct ?ks" by (rule distinct_first_occurrences)
  have m: "set_label e \<in> set ?ks \<longleftrightarrow> set_label e \<in> set_label ` set entries"
    by (simp add: set_first_occurrences)
  show ?thesis
  proof (cases "set_label e \<in> set_label ` set entries")
    case True
    then show ?thesis
      unfolding grouped_def using m
      by (simp add: first_occurrences_snoc append_group_map[OF d]) 
  next
    case False
    have nil: "filter (\<lambda>x. set_label x = set_label e) entries = []"
      using False by (simp add: filter_empty_conv) (metis imageI)
    have "\<And>s. s \<in> set ?ks \<Longrightarrow> s \<noteq> set_label e" using False m by auto
    then have same: "map (\<lambda>s. (s, map rendered_song (filter (\<lambda>e. set_label e = s) (entries @ [e])))) ?ks
       = map (\<lambda>s. (s, ?g s)) ?ks"
      by (intro map_cong) auto
    have "grouped (entries @ [e]) =
        map (\<lambda>s. (s, map rendered_song (filter (\<lambda>e. set_label e = s) (entries @ [e]))))
          (?ks @ [set_label e])"
      unfolding grouped_def using False by (simp add: first_occurrences_snoc)
    also have "\<dots> = map (\<lambda>s. (s, ?g s)) ?ks @ [(set_label e, [rendered_song e])]"
      unfolding map_append same by (simp add: nil)
    also have "\<dots> = append_group (set_label e) (rendered_song e) (grouped entries)"
      unfolding grouped_def using False m by (simp add: append_group_map[OF d])
    finally show ?thesis .
  qed
qed

lemma fold_format_step: "fold format_step entries [] = grouped entries"
proof (induction entries rule: rev_induct)
  case Nil
  then show ?case by (simp add: grouped_def)
next
  case (snoc e entries)
  then show ?case by (simp add: format_step_eq grouped_snoc)
qed

text \<open>
  Claim C10.  The formatted string lists the sets in the order in which each set label
  first occurs in the entry list: it is the rendering, joined by " | ", of one group per
  label in that order (the grouping loop computes exactly \<open>grouped\<close>).  The formatter is
  a function of the entry list alone, so equal entry lists give equal strings.
\<close>

theorem C10_sets_in_first_occurrence_order:
  "format_setlist_from_show entries =
     join '' | '' (map format_set (grouped entries))
   \<and> map fst (grouped entries) = first_occurrences (map set_label entries)
   \<and> (entries = entries' \<longrightarrow>
        format_setlist_from_show entries = format_setlist_from_show entries')"
  by (simp add: format_setlist_from_show_def fold_format_step)
     (simp add: grouped_def comp_def)

theorem C10_sets_in_first_occurrence_order_witness:
  "format_setlist_from_show sample_setlist =
     join '' | '' (map format_set (grouped sample_setlist))
   \<and> map fst (grouped sample_setlist) = [''Set 1'', ''Encore'']
   \<and> format_setlist_from_show sample_setlist
       = ''Set 1: Tweezer > , Mike's Song | Encore: Tweezer''"
proof -
  have a: "first_occurrences (map set_label sample_setlist) = [''Set 1'', ''Encore'']"
    by code_simp
  have b: "format_setlist_from_show sample_setlist
       = ''Set 1: Tweezer > , Mike's Song | Encore: Tweezer''"
    by code_simp
  show ?thesis
    using C10_sets_in_first_occurrence_order [of sample_setlist sample_setlist] a b by simp
qed

section \<open>Properties of the long export\<close>




section \<open>Properties of the wide export\<close>












section \<open>Properties of the round trip through the formatted string\<close>


















































end
